theory Spec2Isabelle
  imports Main "HOL-Library.Multiset"
begin

section \<open>The artifact graph of AutoArchaeologist\<close>

text \<open>
  A shallow embedding of \<^verbatim>\<open>src/autoarchaeologist/artifact.py\<close>. Python objects have
  identity, and the claims are about sharing (two parents, one child object), so the
  artifacts live in an explicit store: an artifact is the index of its record in
  \<open>arts\<close>, and the excavation is the one other object that can be a parent. Every
  method takes the store and returns it, together with either the error it raised or
  its value; the returned store is the one at the moment of the \<^verbatim>\<open>raise\<close>, so that
  "nothing changed on failure" is a statement and not a convention.

  A Python \<^verbatim>\<open>bytes\<close> object is a \<open>string\<close> (the characters of HOL are bytes). A
  \<^verbatim>\<open>memoryview\<close> and a scatter-gather list are modelled by their logical content.
  SHA-256 is a parameter \<open>H\<close> of every operation that hashes.
\<close>

subsection \<open>Data\<close>

type_synonym bytes = string
type_synonym digest = string

text \<open>
  The exceptions: \<open>DuplicateName\<close> is the class of the source, \<open>AssertionError\<close> and
  \<open>TypeError\<close> are Python's own. \<open>InvalidSource\<close> is the error the specification
  names for an empty input; no path of the source raises it.
\<close>

datatype error = AssertionError | TypeError | DuplicateName | InvalidSource

text \<open>A parent is the excavation or an artifact.\<close>

datatype ref = Excavation | Artifact nat

type_synonym entry = "int option \<times> int option \<times> nat"

record artifact =
  bdx :: bytes
  digest :: digest
  parents :: "ref list"
  children :: "nat list"
  named :: "string option"
  notes_of :: "string set"
  types_of :: "string set"
  descriptions :: "string list"
  comments :: "string list"
  taken :: bool
  layout :: "entry list"

text \<open>
  Modelled from the spec: the class \<^verbatim>\<open>Excavation\<close> is not among the sources. Its
  attributes are those of section 3.3: \<open>hashes\<close> (digest to artifact), \<open>names\<close>,
  \<open>index\<close> (string to set of artifacts), the top-level list, the naming prefix
  length, and the list of children it has as a duck-typed parent.
\<close>

record excavation =
  hashes :: "digest \<rightharpoonup> nat"
  names :: "string set"
  index :: "string \<rightharpoonup> nat set"
  top_level :: "nat list"
  top_children :: "nat list"
  digest_prefix :: nat

record state =
  top_of :: excavation
  arts :: "artifact list"

definition upd_art :: "nat \<Rightarrow> (artifact \<Rightarrow> artifact) \<Rightarrow> state \<Rightarrow> state" where
  "upd_art a f s = s\<lparr>arts := (arts s)[a := f (arts s ! a)]\<rparr>"

definition upd_top :: "(excavation \<Rightarrow> excavation) \<Rightarrow> state \<Rightarrow> state" where
  "upd_top f s = s\<lparr>top_of := f (top_of s)\<rparr>"

text \<open>\<^verbatim>\<open>__len__\<close>\<close>

definition len :: "state \<Rightarrow> nat \<Rightarrow> int" where
  "len s a = int (length (bdx (arts s ! a)))"

subsection \<open>The excavation's hooks\<close>

text \<open>
  Modelled from the spec: \<^verbatim>\<open>Excavation.add_artifact\<close> is not among the sources.
  Section 4.3: admission registers the digest and adds the artifact to the top level
  if it has only the excavation as parent.
\<close>

definition add_artifact :: "nat \<Rightarrow> state \<Rightarrow> state" where
  "add_artifact this s =
     upd_top (\<lambda>t. t\<lparr>hashes := (hashes t)(digest (arts s ! this) \<mapsto> this),
                    top_level := (if parents (arts s ! this) = [Excavation]
                                  then top_level t @ [this] else top_level t)\<rparr>) s"

text \<open>
  Modelled from the spec: \<^verbatim>\<open>Excavation.add_to_index\<close> is not among the sources.
  Section 3.3: the index maps a string to the set of artifacts that bear it.
\<close>

definition add_to_index :: "string \<Rightarrow> nat \<Rightarrow> state \<Rightarrow> state" where
  "add_to_index key this s =
     upd_top (\<lambda>t. t\<lparr>index := (index t)(key \<mapsto>
        insert this (case index t key of None \<Rightarrow> {} | Some S \<Rightarrow> S))\<rparr>) s"

subsection \<open>Edges\<close>

text \<open>\<^verbatim>\<open>add_parent\<close>: the assertion comes first, so a failure changes nothing.\<close>

definition add_parent :: "nat \<Rightarrow> ref \<Rightarrow> state \<Rightarrow> (error + unit) \<times> state" where
  "add_parent self parent s =
     (if Artifact self = parent then (Inl AssertionError, s)
      else
        let s1 = upd_art self (\<lambda>x. x\<lparr>parents := parents x @ [parent]\<rparr>) s;
            s2 = (case parent of
                    Excavation \<Rightarrow>
                      upd_top (\<lambda>t. t\<lparr>top_children := top_children t @ [self]\<rparr>) s1
                  | Artifact p \<Rightarrow>
                      upd_art p (\<lambda>x. x\<lparr>children := children x @ [self]\<rparr>) s1)
        in (Inr (), s2))"

text \<open>
  \<^verbatim>\<open>ArtifactClass.__init__\<close>: the new object gets the next free address. The fields
  of the source that no claim reads (\<^verbatim>\<open>interpretations\<close>, \<^verbatim>\<open>index_representation\<close>,
  \<^verbatim>\<open>link_to\<close>, \<^verbatim>\<open>by_class\<close>) are left out.
\<close>

definition fresh :: "digest \<Rightarrow> bytes \<Rightarrow> artifact" where
  "fresh dg bits =
     \<lparr>bdx = bits, digest = dg, parents = [], children = [], named = None,
      notes_of = {}, types_of = {}, descriptions = [], comments = [],
      taken = False, layout = []\<rparr>"

definition init :: "ref \<Rightarrow> digest \<Rightarrow> bytes \<Rightarrow> state \<Rightarrow> (error + nat) \<times> state" where
  "init up dg bits s =
     (if \<not> 0 < length bits then (Inl AssertionError, s)
      else
        let this = length (arts s);
            s1 = s\<lparr>arts := arts s @ [fresh dg bits]\<rparr>
        in case add_parent this up s1 of
             (Inl e, s2) \<Rightarrow> (Inl e, s2)
           | (Inr _, s2) \<Rightarrow> (Inr this, add_artifact this s2))"

subsection \<open>Names, notes, types, comments\<close>

definition add_note :: "string \<Rightarrow> nat \<Rightarrow> state \<Rightarrow> state" where
  "add_note note self s =
     add_to_index note self (upd_art self (\<lambda>x. x\<lparr>notes_of := insert note (notes_of x)\<rparr>) s)"

definition add_type :: "string \<Rightarrow> nat \<Rightarrow> state \<Rightarrow> state" where
  "add_type typ self s =
     add_to_index typ self (upd_art self (\<lambda>x. x\<lparr>types_of := insert typ (types_of x)\<rparr>) s)"

definition add_description :: "string \<Rightarrow> nat \<Rightarrow> state \<Rightarrow> state" where
  "add_description desc self s =
     upd_art self (\<lambda>x. x\<lparr>descriptions := descriptions x @ [desc]\<rparr>) s"

definition add_comment :: "string \<Rightarrow> nat \<Rightarrow> state \<Rightarrow> state" where
  "add_comment desc self s =
     upd_art self (\<lambda>x. x\<lparr>notes_of := insert ''Has Comment'' (notes_of x)\<rparr>)
       (upd_art self (\<lambda>x. x\<lparr>comments := comments x @ [desc]\<rparr>) s)"

definition set_name :: "string \<Rightarrow> bool \<Rightarrow> nat \<Rightarrow> state \<Rightarrow> (error + unit) \<times> state" where
  "set_name name fallback self s =
     (if named (arts s ! self) = Some name then (Inr (), s)
      else if named (arts s ! self) \<noteq> None then
        (if fallback then (Inr (), add_to_index name self (add_note name self s))
         else (Inl DuplicateName, s))
      else if name \<in> names (top_of s) then
        (if fallback then (Inr (), add_to_index name self (add_note name self s))
         else (Inl DuplicateName, s))
      else
        (Inr (), add_to_index name self
           (upd_art self (\<lambda>x. x\<lparr>named := Some name\<rparr>)
              (upd_top (\<lambda>t. t\<lparr>names := insert name (names t)\<rparr>) s))))"

subsection \<open>Creating artifacts\<close>

text \<open>
  What \<^verbatim>\<open>create\<close> receives as \<^verbatim>\<open>bits\<close>: a \<^verbatim>\<open>bytes\<close> object, whose truth value is
  that it is not empty, or a \<^verbatim>\<open>memoryview\<close>, which is recognised by its type.
\<close>

datatype bits = Bytes bytes | MemoryView bytes

text \<open>Python's \<^verbatim>\<open>v[start:stop]\<close> on integers, negative ones counting from the end.\<close>

definition py_slice :: "bytes \<Rightarrow> int \<Rightarrow> int \<Rightarrow> bytes" where
  "py_slice v start stop =
     (let n = int (length v);
          lo = (if start < 0 then max (n + start) 0 else min start n);
          hi = (if stop < 0 then max (n + stop) 0 else min stop n)
      in take (nat (hi - lo)) (drop (nat lo) v))"

text \<open>The truth value of an optional integer: neither \<^verbatim>\<open>None\<close> nor zero.\<close>

definition truthy :: "int option \<Rightarrow> bool" where
  "truthy v = (case v of None \<Rightarrow> False | Some i \<Rightarrow> i \<noteq> 0)"

text \<open>
  The first half of \<^verbatim>\<open>create\<close>: which bytes, under which digest. \<open>Inr None\<close> is the
  short-circuit \<^verbatim>\<open>return self\<close>. A comparison with \<^verbatim>\<open>None\<close> raises \<open>TypeError\<close>.
  Modelled from the spec: \<^verbatim>\<open>scattergather.ScatterGather\<close> is not among the sources;
  its content is the concatenation of its records and its digest the hash of that.
\<close>

definition slice_source :: "(bytes \<Rightarrow> digest) \<Rightarrow> int option \<Rightarrow> int option \<Rightarrow>
    nat \<Rightarrow> state \<Rightarrow> error + (bytes \<times> digest) option" where
  "slice_source H start stop self s =
     (case start of
        None \<Rightarrow> Inl TypeError
      | Some st \<Rightarrow>
          (case stop of
             None \<Rightarrow> Inl TypeError
           | Some sp \<Rightarrow>
               if \<not> sp > st then Inl AssertionError
               else if \<not> sp \<le> len s self then Inl AssertionError
               else if st = 0 \<and> sp = len s self then Inr None
               else Inr (Some (py_slice (bdx (arts s ! self)) st sp,
                               H (py_slice (bdx (arts s ! self)) st sp)))))"

definition source :: "(bytes \<Rightarrow> digest) \<Rightarrow> bits option \<Rightarrow> int option \<Rightarrow> int option \<Rightarrow>
    bytes list option \<Rightarrow> nat \<Rightarrow> state \<Rightarrow> error + (bytes \<times> digest) option" where
  "source H bits start stop records self s =
     (if records \<noteq> None \<and> records \<noteq> Some [] then
        (if bits \<noteq> None then Inl AssertionError
         else Inr (Some (concat (the records), H (concat (the records)))))
      else
        (case bits of
           Some (MemoryView b) \<Rightarrow> Inr (Some (b, H b))
         | Some (Bytes b) \<Rightarrow>
             if b \<noteq> [] then Inr (Some (b, H b))
             else slice_source H start stop self s
         | None \<Rightarrow> slice_source H start stop self s))"

text \<open>
  The second half: look the digest up. \<^verbatim>\<open>not this\<close> holds for \<^verbatim>\<open>None\<close> and for an
  object of length zero, since the class defines \<^verbatim>\<open>__len__\<close>.
\<close>

definition create :: "(bytes \<Rightarrow> digest) \<Rightarrow> bits option \<Rightarrow> int option \<Rightarrow> int option \<Rightarrow>
    bytes list option \<Rightarrow> nat \<Rightarrow> state \<Rightarrow> (error + nat) \<times> state" where
  "create H bits start stop records self s =
     (case source H bits start stop records self s of
        Inl e \<Rightarrow> (Inl e, s)
      | Inr None \<Rightarrow> (Inr self, s)
      | Inr (Some (b, dg)) \<Rightarrow>
          let r = (case hashes (top_of s) dg of
                     None \<Rightarrow> init (Artifact self) dg b s
                   | Some this \<Rightarrow>
                       if len s this = 0 then init (Artifact self) dg b s
                       else (case add_parent this (Artifact self) s of
                               (Inl e, s1) \<Rightarrow> (Inl e, s1)
                             | (Inr _, s1) \<Rightarrow> (Inr this, s1)))
          in case r of
               (Inl e, s1) \<Rightarrow> (Inl e, s1)
             | (Inr this, s1) \<Rightarrow>
                 (Inr this,
                  if truthy start \<or> truthy stop
                  then upd_art self (\<lambda>x. x\<lparr>layout := layout x @ [(start, stop, this)]\<rparr>) s1
                  else s1))"

subsection \<open>Sorting the layout\<close>

text \<open>
  \<^verbatim>\<open>name()\<close> as a list of code points: the name, or else the first
  \<^verbatim>\<open>digest_prefix\<close> characters of the digest, between the brackets U+27E6 and U+27E7.
  An empty name counts as no name.
\<close>

definition name :: "state \<Rightarrow> nat \<Rightarrow> nat list" where
  "name s a =
     (let dflt = take (digest_prefix (top_of s)) (digest (arts s ! a));
          body = (case named (arts s ! a) of
                    None \<Rightarrow> dflt
                  | Some n \<Rightarrow> if n \<noteq> [] then n else dflt)
      in 10214 # map of_char body @ [10215])"

text \<open>Python's \<^verbatim>\<open><\<close> on strings: lexicographic on code points.\<close>

fun str_lt :: "nat list \<Rightarrow> nat list \<Rightarrow> bool" where
  "str_lt [] [] = False"
| "str_lt [] (y # ys) = True"
| "str_lt (x # xs) [] = False"
| "str_lt (x # xs) (y # ys) = (x < y \<or> (x = y \<and> str_lt xs ys))"

text \<open>\<^verbatim>\<open>__lt__\<close> between two artifacts.\<close>

definition artifact_lt :: "state \<Rightarrow> nat \<Rightarrow> nat \<Rightarrow> bool" where
  "artifact_lt s a b = str_lt (name s a) (name s b)"

text \<open>
  \<^verbatim>\<open><\<close> between two endpoints that are not equal: two integers compare, and
  \<^verbatim>\<open>None\<close> against an integer raises \<open>TypeError\<close>.
\<close>

fun lt_endpoint :: "int option \<Rightarrow> int option \<Rightarrow> error + bool" where
  "lt_endpoint (Some x) (Some y) = Inr (x < y)"
| "lt_endpoint _ _ = Inl TypeError"

text \<open>
  \<^verbatim>\<open><\<close> between two layout tuples: the first position where they differ decides;
  equal tuples are not less. Artifacts are equal when they are the same object.
\<close>

fun lt_entry :: "state \<Rightarrow> entry \<Rightarrow> entry \<Rightarrow> error + bool" where
  "lt_entry s (a1, b1, c1) (a2, b2, c2) =
     (if a1 \<noteq> a2 then lt_endpoint a1 a2
      else if b1 \<noteq> b2 then lt_endpoint b1 b2
      else if c1 \<noteq> c2 then Inr (artifact_lt s c1 c2)
      else Inr False)"

text \<open>
  \<^verbatim>\<open>sorted()\<close> is modelled as a stable insertion sort that stops at the first
  comparison that raises. On two elements it makes the one comparison CPython makes,
  of the second with the first. On a longer list CPython may compare other pairs; the
  sorted list is the same whenever no comparison raises, and a list that holds both a
  \<^verbatim>\<open>None\<close> start and an integer start makes every sort compare the two.
\<close>

fun insert_entry :: "state \<Rightarrow> entry \<Rightarrow> entry list \<Rightarrow> error + entry list" where
  "insert_entry s x [] = Inr [x]"
| "insert_entry s x (y # ys) =
     (case lt_entry s x y of
        Inl e \<Rightarrow> Inl e
      | Inr True \<Rightarrow> Inr (x # y # ys)
      | Inr False \<Rightarrow>
          (case insert_entry s x ys of
             Inl e \<Rightarrow> Inl e
           | Inr zs \<Rightarrow> Inr (y # zs)))"

fun sort_entries :: "state \<Rightarrow> entry list \<Rightarrow> entry list \<Rightarrow> error + entry list" where
  "sort_entries s [] acc = Inr acc"
| "sort_entries s (x # xs) acc =
     (case insert_entry s x acc of
        Inl e \<Rightarrow> Inl e
      | Inr acc' \<Rightarrow> sort_entries s xs acc')"

definition sorted_py :: "state \<Rightarrow> entry list \<Rightarrow> error + entry list" where
  "sorted_py s es = sort_entries s es []"

subsection \<open>Coverage reconciliation\<close>

text \<open>
  The first loop of \<^verbatim>\<open>examined\<close>: the cursor \<open>offset\<close> and the list \<open>l\<close> of gaps.
\<close>

fun walk :: "entry list \<Rightarrow> int \<Rightarrow> (int \<times> int) list \<Rightarrow> int \<times> (int \<times> int) list" where
  "walk [] offset l = (offset, l)"
| "walk ((None, stop, src) # es) offset l = walk es offset l"
| "walk ((Some start, None, src) # es) offset l = walk es offset l"
| "walk ((Some start, Some stop, src) # es) offset l =
     walk es stop (if offset < start then l @ [(offset, start)] else l)"

text \<open>The last loop: one \<^verbatim>\<open>create\<close> per gap; an exception ends it.\<close>

fun create_all :: "(bytes \<Rightarrow> digest) \<Rightarrow> (int \<times> int) list \<Rightarrow> nat \<Rightarrow> state \<Rightarrow>
    (error + unit) \<times> state" where
  "create_all H [] self s = (Inr (), s)"
| "create_all H ((start, stop) # l) self s =
     (case create H None (Some start) (Some stop) None self s of
        (Inl e, s1) \<Rightarrow> (Inl e, s1)
      | (Inr _, s1) \<Rightarrow> create_all H l self s1)"

text \<open>
  What the first loop leaves to the last: nothing when the cursor is still 0 (the early
  \<^verbatim>\<open>return\<close>), else its gaps and, when the cursor is not \<^verbatim>\<open>len(self)\<close>, the range from
  the cursor to \<^verbatim>\<open>len(self)\<close>.
\<close>

definition gaps :: "state \<Rightarrow> nat \<Rightarrow> entry list \<Rightarrow> (int \<times> int) list" where
  "gaps s self es =
     (case walk es 0 [] of
        (offset, l) \<Rightarrow>
          if offset = 0 then []
          else if offset \<noteq> len s self then l @ [(offset, len s self)]
          else l)"

definition examined :: "(bytes \<Rightarrow> digest) \<Rightarrow> nat \<Rightarrow> state \<Rightarrow> (error + unit) \<times> state" where
  "examined H self s =
     (case sorted_py s (layout (arts s ! self)) of
        Inl e \<Rightarrow> (Inl e, s)
      | Inr es \<Rightarrow> create_all H (gaps s self es) self s)"

subsection \<open>Recursive iteration\<close>

text \<open>
  The generators \<^verbatim>\<open>iter_types\<close> and \<^verbatim>\<open>iter_notes\<close> recurse over the children, and
  nothing in them bounds the recursion, so the model takes fuel: the depth of calls it
  may use. \<open>None\<close> is "out of fuel". The value is the multiset of everything yielded
  (a Python set has no iteration order to keep), or the error of the assertion.
\<close>

fun yield_from :: "(error + 'a multiset) option \<Rightarrow> (error + 'a multiset) option \<Rightarrow>
    (error + 'a multiset) option" where
  "yield_from None r = None"
| "yield_from (Some (Inl e)) r = Some (Inl e)"
| "yield_from (Some (Inr m)) None = None"
| "yield_from (Some (Inr m)) (Some (Inl e)) = Some (Inl e)"
| "yield_from (Some (Inr m)) (Some (Inr m')) = Some (Inr (m + m'))"

fun iter_types :: "nat \<Rightarrow> bool \<Rightarrow> nat \<Rightarrow> state \<Rightarrow> (error + string multiset) option" where
  "iter_types 0 recursive self s = None"
| "iter_types (Suc k) recursive self s =
     (let own = Some (Inr (mset_set (types_of (arts s ! self))))
      in if recursive then
           foldl (\<lambda>acc child. yield_from acc
                    (if child = self then Some (Inl AssertionError)
                     else iter_types k recursive child s))
             own (children (arts s ! self))
         else own)"

fun iter_notes :: "nat \<Rightarrow> bool \<Rightarrow> nat \<Rightarrow> state \<Rightarrow>
    (error + (nat \<times> string) multiset) option" where
  "iter_notes 0 recursive self s = None"
| "iter_notes (Suc k) recursive self s =
     (let own = Some (Inr (image_mset (Pair self) (mset_set (notes_of (arts s ! self)))))
      in if recursive then
           foldl (\<lambda>acc child. yield_from acc
                    (if child = self then Some (Inl AssertionError)
                     else iter_notes k recursive child s))
             own (children (arts s ! self))
         else own)"

subsection \<open>Predicates of the statements\<close>

text \<open>
  A well-formed store: \<open>hashes\<close> holds exactly the artifacts of the store, each under
  its own digest, which is the hash of its bytes, and no artifact is empty.
\<close>

definition wf :: "(bytes \<Rightarrow> digest) \<Rightarrow> state \<Rightarrow> bool" where
  "wf H s \<longleftrightarrow>
     (\<forall>d t. hashes (top_of s) d = Some t \<longrightarrow> t < length (arts s) \<and> digest (arts s ! t) = d) \<and>
     (\<forall>i < length (arts s).
        bdx (arts s ! i) \<noteq> [] \<and>
        digest (arts s ! i) = H (bdx (arts s ! i)) \<and>
        hashes (top_of s) (digest (arts s ! i)) = Some i)"

text \<open>No artifact is its own parent or child.\<close>

definition no_self_edges :: "state \<Rightarrow> bool" where
  "no_self_edges s \<longleftrightarrow>
     (\<forall>i < length (arts s).
        Artifact i \<notin> set (parents (arts s ! i)) \<and> i \<notin> set (children (arts s ! i)))"

text \<open>A run of \<^verbatim>\<open>create\<close> calls, each on the store the one before left, failed or not.\<close>

type_synonym call = "bits option \<times> int option \<times> int option \<times> bytes list option \<times> nat"

fun create_calls :: "(bytes \<Rightarrow> digest) \<Rightarrow> call list \<Rightarrow> state \<Rightarrow> state" where
  "create_calls H [] s = s"
| "create_calls H ((bits, start, stop, records, self) # cs) s =
     create_calls H cs (snd (create H bits start stop records self s))"

text \<open>Byte \<open>i\<close> lies in a layout entry with two integer endpoints.\<close>

definition covered :: "entry list \<Rightarrow> int \<Rightarrow> bool" where
  "covered es i =
     list_ex (\<lambda>(start, stop, src).
        case start of
          None \<Rightarrow> False
        | Some lo \<Rightarrow> (case stop of None \<Rightarrow> False | Some hi \<Rightarrow> lo \<le> i \<and> i < hi)) es"

text \<open>
  The artifacts reachable from \<open>a\<close> along \<^verbatim>\<open>children\<close>, \<open>a\<close> included, and a height that
  falls along every edge: the store is a DAG exactly when it has one.
\<close>

inductive_set descendants :: "state \<Rightarrow> nat \<Rightarrow> nat set" for s :: state and a :: nat where
  self: "a \<in> descendants s a"
| child: "d \<in> descendants s a \<Longrightarrow> c \<in> set (children (arts s ! d)) \<Longrightarrow> c \<in> descendants s a"

definition dag :: "(nat \<Rightarrow> nat) \<Rightarrow> state \<Rightarrow> bool" where
  "dag h s \<longleftrightarrow>
     (\<forall>a < length (arts s). \<forall>c \<in> set (children (arts s ! a)).
        c < length (arts s) \<and> h c < h a)"

definition finite_tags :: "state \<Rightarrow> bool" where
  "finite_tags s \<longleftrightarrow>
     (\<forall>a < length (arts s). finite (notes_of (arts s ! a)) \<and> finite (types_of (arts s ! a)))"

text \<open>A new excavation, and SHA-256 replaced by the identity where a run is evaluated.\<close>

definition empty_excavation :: state where
  "empty_excavation =
     \<lparr>top_of = \<lparr>hashes = Map.empty, names = {}, index = Map.empty, top_level = [],
                top_children = [], digest_prefix = 8\<rparr>,
      arts = []\<rparr>"

text \<open>
  Modelled from the spec: how the excavation admits a top-level artifact is not among
  the sources; the class comment of \<^verbatim>\<open>ArtifactClass\<close> says that it is created
  relative to the excavation, so it is the constructor with the excavation as \<^verbatim>\<open>up\<close>.
\<close>

definition top_level_artifact :: "(bytes \<Rightarrow> digest) \<Rightarrow> bytes \<Rightarrow> state \<Rightarrow> state" where
  "top_level_artifact H b s = snd (init Excavation (H b) b s)"

text \<open>The store of the scenarios: one top-level artifact of eight bytes.\<close>

definition store8 :: state where
  "store8 = top_level_artifact (\<lambda>b. b) ''AAAABBBB'' empty_excavation"

subsection \<open>The two outcomes of a successful create\<close>

text \<open>The layout entry a call appends: none when neither endpoint is true.\<close>

definition lay :: "int option \<Rightarrow> int option \<Rightarrow> nat \<Rightarrow> entry list" where
  "lay start stop c = (if truthy start \<or> truthy stop then [(start, stop, c)] else [])"

text \<open>
  The store after a \<^verbatim>\<open>create\<close> that found no artifact under the digest: the new
  artifact at the next address, registered, with \<open>self\<close> as its only parent.
\<close>

definition new_store :: "state \<Rightarrow> nat \<Rightarrow> bytes \<Rightarrow> digest \<Rightarrow> entry list \<Rightarrow> state" where
  "new_store s self b dg l =
     s\<lparr>top_of := (top_of s)\<lparr>hashes := (hashes (top_of s))(dg \<mapsto> length (arts s))\<rparr>,
       arts := (arts s)[self := (arts s ! self)
                 \<lparr>children := children (arts s ! self) @ [length (arts s)],
                  layout := layout (arts s ! self) @ l\<rparr>]
               @ [(fresh dg b)\<lparr>parents := [Artifact self]\<rparr>]\<rparr>"

text \<open>
  The store after a \<^verbatim>\<open>create\<close> that found the artifact \<open>t\<close> under the digest: one
  more parent for \<open>t\<close>, one more child for \<open>self\<close>.
\<close>

definition old_store :: "state \<Rightarrow> nat \<Rightarrow> nat \<Rightarrow> entry list \<Rightarrow> state" where
  "old_store s self t l =
     s\<lparr>arts := (arts s)[t := (arts s ! t)\<lparr>parents := parents (arts s ! t) @ [Artifact self]\<rparr>,
                       self := (arts s ! self)
                 \<lparr>children := children (arts s ! self) @ [t],
                  layout := layout (arts s ! self) @ l\<rparr>]\<rparr>"

text \<open>The store of two top-level artifacts.\<close>

definition store2 :: state where
  "store2 = top_level_artifact (\<lambda>b. b) ''CCCC'' store8"

text \<open>The same store after \<^verbatim>\<open>set_name("alpha")\<close> on its first artifact.\<close>

definition store2_alpha :: state where
  "store2_alpha = snd (set_name ''alpha'' True 0 store2)"

text \<open>
  The eight-byte store after \<^verbatim>\<open>create(bits=b"X", stop=5)\<close> and
  \<^verbatim>\<open>create(start=0, stop=4)\<close> on its artifact: a layout with a \<^verbatim>\<open>None\<close> endpoint.
\<close>

definition store8_mixed :: state where
  "store8_mixed =
     snd (create (\<lambda>b. b) None (Some 0) (Some 4) None 0
       (snd (create (\<lambda>b. b) (Some (Bytes ''X'')) None (Some 5) None 0 store8)))"

text \<open>
  The eight-byte store after \<^verbatim>\<open>create(start=0, stop=6)\<close> and
  \<^verbatim>\<open>create(start=2, stop=4)\<close> on its artifact: the second range lies inside the first.
\<close>

definition store8_nested :: state where
  "store8_nested =
     snd (create (\<lambda>b. b) None (Some 2) (Some 4) None 0
       (snd (create (\<lambda>b. b) None (Some 0) (Some 6) None 0 store8)))"

text \<open>
  The number of paths of fewer than \<open>k\<close> edges that lead from \<open>a\<close> to \<open>d\<close> along
  \<^verbatim>\<open>children\<close> (a child listed twice counts twice). In a DAG of height below \<open>k\<close> these
  are all the paths.
\<close>

fun paths :: "nat \<Rightarrow> state \<Rightarrow> nat \<Rightarrow> nat \<Rightarrow> nat" where
  "paths 0 s a d = 0"
| "paths (Suc k) s a d =
     (if a = d then 1 else 0) + sum_list (map (\<lambda>c. paths k s c d) (children (arts s ! a)))"

text \<open>
  A store with a shared child: the top-level artifact 0 creates 1 and 2 from the bytes
  \<^verbatim>\<open>b"B"\<close> and \<^verbatim>\<open>b"C"\<close>, both of them create 3 from \<^verbatim>\<open>b"X"\<close>, and 3 gets a note and
  a type.
\<close>

definition diamond :: state where
  "diamond =
     add_type ''text'' 3 (add_note ''n'' 3
       (snd (create (\<lambda>b. b) (Some (Bytes ''X'')) None None None 2
         (snd (create (\<lambda>b. b) (Some (Bytes ''X'')) None None None 1
           (snd (create (\<lambda>b. b) (Some (Bytes ''C'')) None None None 0
             (snd (create (\<lambda>b. b) (Some (Bytes ''B'')) None None None 0 store8)))))))))"

subsection \<open>Predicates of the coverage statement\<close>





text \<open>\<^verbatim>\<open>sorted(self.layout)\<close> returns: no comparison of two tuples raises.\<close>

definition sort_returns :: "state \<Rightarrow> entry list \<Rightarrow> bool" where
  "sort_returns s es = (case sorted_py s es of Inl e \<Rightarrow> False | Inr zs \<Rightarrow> True)"








subsection \<open>The index invariant\<close>

text \<open>The index has the key, and the artifact is in its set.\<close>

definition indexed :: "state \<Rightarrow> string \<Rightarrow> nat \<Rightarrow> bool" where
  "indexed s key a = (case index (top_of s) key of None \<Rightarrow> False | Some S \<Rightarrow> a \<in> S)"

text \<open>
  Index completeness: every name, note and type of every artifact is a key of the
  index whose set holds the artifact.
\<close>

definition index_complete :: "state \<Rightarrow> bool" where
  "index_complete s \<longleftrightarrow>
     (\<forall>a < length (arts s).
        (\<forall>n. named (arts s ! a) = Some n \<longrightarrow> indexed s n a) \<and>
        (\<forall>n \<in> notes_of (arts s ! a). indexed s n a) \<and>
        (\<forall>t \<in> types_of (arts s ! a). indexed s t a))"

text \<open>
  The mutating operations that register what they add, and a run of them (a failed
  \<^verbatim>\<open>set_name\<close> leaves the store it raised in).
\<close>

datatype mutation =
    SetName string bool nat
  | AddNote string nat
  | AddType string nat
  | AddDescription string nat

fun mutate :: "mutation \<Rightarrow> state \<Rightarrow> state" where
  "mutate (SetName n fallback a) s = snd (set_name n fallback a s)"
| "mutate (AddNote n a) s = add_note n a s"
| "mutate (AddType t a) s = add_type t a s"
| "mutate (AddDescription d a) s = add_description d a s"

subsection \<open>Names and the split store\<close>

text \<open>
  Name uniqueness: \<^verbatim>\<open>top.names\<close> is the set of the names the artifacts bear, and no
  two artifacts bear the same name.
\<close>

definition names_unique :: "state \<Rightarrow> bool" where
  "names_unique s \<longleftrightarrow>
     names (top_of s) = {n. \<exists>a < length (arts s). named (arts s ! a) = Some n} \<and>
     (\<forall>a < length (arts s). \<forall>b < length (arts s). \<forall>n.
        named (arts s ! a) = Some n \<and> named (arts s ! b) = Some n \<longrightarrow> a = b)"

text \<open>
  The eight-byte store after \<^verbatim>\<open>create(start=0, stop=4)\<close> and
  \<^verbatim>\<open>create(start=4, stop=8)\<close>: the layout claims every byte.
\<close>

definition store8_split :: state where
  "store8_split =
     snd (create (\<lambda>b. b) None (Some 4) (Some 8) None 0
       (snd (create (\<lambda>b. b) None (Some 0) (Some 4) None 0 store8)))"

section \<open>Properties\<close>

subsection \<open>Evaluating the example stores\<close>

lemma store8_eq:
  "store8 =
     \<lparr>top_of = \<lparr>hashes = [''AAAABBBB'' \<mapsto> 0], names = {}, index = Map.empty,
                top_level = [0], top_children = [0], digest_prefix = 8\<rparr>,
      arts = [\<lparr>bdx = ''AAAABBBB'', digest = ''AAAABBBB'', parents = [Excavation],
               children = [], named = None, notes_of = {}, types_of = {},
               descriptions = [], comments = [], taken = False, layout = []\<rparr>]\<rparr>"
  by (simp add: store8_def top_level_artifact_def init_def add_parent_def add_artifact_def
      upd_art_def upd_top_def fresh_def empty_excavation_def)

subsection \<open>The whole-self slice\<close>

text \<open>
  C4. For every artifact \<open>a\<close> of the store that is not empty,
  \<^verbatim>\<open>a.create(start=0, stop=len(a))\<close> returns \<open>a\<close> itself and leaves the whole store as
  it was: the layout, the parents and the children of \<open>a\<close>, and everything else.
\<close>

theorem whole_self_slice_is_identity:
  assumes "a < length (arts s)" and "0 < len s a"
  shows "create H None (Some 0) (Some (len s a)) None a s = (Inr a, s)"
  using assms by (simp add: create_def source_def slice_source_def)

theorem whole_self_slice_is_identity_witness:
  "create (\<lambda>b. b) None (Some 0) (Some 8) None 0 store8 = (Inr 0, store8)"
  using whole_self_slice_is_identity [of 0 store8 "\<lambda>b. b"]
  by (simp add: store8_eq len_def)

subsection \<open>Empty input\<close>

text \<open>
  C8, as the source has it. \<^verbatim>\<open>create(bits=b"")\<close> with no \<^verbatim>\<open>start\<close> and no \<^verbatim>\<open>stop\<close>
  fails and leaves the store as it was, for every artifact and every store. The error
  is not \<open>InvalidSource\<close>: the empty \<^verbatim>\<open>bytes\<close> object is false, so the call takes the
  slicing branch, whose first assertion compares \<^verbatim>\<open>None\<close> with \<^verbatim>\<open>None\<close>.
\<close>

theorem create_empty_bits_fails:
  "create H (Some (Bytes [])) None None None a s = (Inl TypeError, s)"
  by (simp add: create_def source_def slice_source_def)

text \<open>C8 as claimed fails on the store of one artifact: the error is another one.\<close>

theorem create_empty_bits_counterexample:
  "fst (create (\<lambda>b. b) (Some (Bytes [])) None None None 0 store8) \<noteq> Inl InvalidSource"
  by (simp add: create_def source_def slice_source_def)

subsection \<open>Stores and their updates\<close>

lemma nth_upd: "xs[i := x] ! j = (if i = j \<and> i < length xs then x else xs ! j)"
  by (cases "i < length xs") (auto simp: nth_list_update list_update_beyond)

lemma nse_add_parent:
  "no_self_edges s \<Longrightarrow> no_self_edges (snd (add_parent t p s))"
  unfolding no_self_edges_def add_parent_def upd_art_def upd_top_def
  by (cases p) (auto simp: nth_upd Let_def)

lemma nse_init:
  "no_self_edges s \<Longrightarrow> no_self_edges (snd (init up dg b s))"
  unfolding no_self_edges_def init_def add_parent_def upd_art_def upd_top_def add_artifact_def fresh_def
  by (cases up) (auto simp: nth_upd nth_append Let_def)

lemma nse_layout:
  "no_self_edges s \<Longrightarrow> no_self_edges (upd_art a (\<lambda>x. x\<lparr>layout := f x\<rparr>) s)"
  unfolding no_self_edges_def upd_art_def
  by (auto simp: nth_upd)

lemma nse_create:
  "no_self_edges s \<Longrightarrow> no_self_edges (snd (create H bits start stop records self s))"
proof -
  assume n: "no_self_edges s"
  have a: "\<And>t. no_self_edges (snd (add_parent t (Artifact self) s))"
    using n by (rule nse_add_parent)
  have i: "\<And>dg b. no_self_edges (snd (init (Artifact self) dg b s))"
    using n by (rule nse_init)
  show ?thesis
    unfolding create_def
    using n a i
    by (auto split: sum.splits option.splits prod.splits if_splits simp: Let_def nse_layout
        dest!: arg_cong[where f=snd])
qed

lemma arts_upd_art: "arts (upd_art a f s) = (arts s)[a := f (arts s ! a)]"
  by (simp add: upd_art_def)

lemma top_upd_art: "top_of (upd_art a f s) = top_of s"
  by (simp add: upd_art_def)

lemma arts_upd_top: "arts (upd_top f s) = arts s"
  by (simp add: upd_top_def)

lemma top_upd_top: "top_of (upd_top f s) = f (top_of s)"
  by (simp add: upd_top_def)

lemmas upd_simps = arts_upd_art top_upd_art arts_upd_top top_upd_top

lemma source_digest:
  "source H bits start stop records self s = Inr (Some (b, dg)) \<Longrightarrow> dg = H b"
  by (auto simp: source_def slice_source_def split: if_splits option.splits bits.splits)

lemma wfI:
  assumes "\<And>d t. hashes (top_of s) d = Some t \<Longrightarrow> t < length (arts s) \<and> digest (arts s ! t) = d"
    and "\<And>i. i < length (arts s) \<Longrightarrow> bdx (arts s ! i) \<noteq> [] \<and>
        digest (arts s ! i) = H (bdx (arts s ! i)) \<and>
        hashes (top_of s) (digest (arts s ! i)) = Some i"
  shows "wf H s"
  using assms unfolding wf_def by blast

lemma wf_hashes:
  "wf H s \<Longrightarrow> hashes (top_of s) d = Some t \<Longrightarrow> t < length (arts s) \<and> digest (arts s ! t) = d"
  unfolding wf_def by blast

lemma wf_arts:
  "wf H s \<Longrightarrow> i < length (arts s) \<Longrightarrow> bdx (arts s ! i) \<noteq> [] \<and>
        digest (arts s ! i) = H (bdx (arts s ! i)) \<and>
        hashes (top_of s) (digest (arts s ! i)) = Some i"
  unfolding wf_def by blast

lemma wf_frame:
  assumes "wf H s"
    and "length (arts s') = length (arts s)"
    and "hashes (top_of s') = hashes (top_of s)"
    and "\<And>i. i < length (arts s) \<Longrightarrow> bdx (arts s' ! i) = bdx (arts s ! i)"
    and "\<And>i. i < length (arts s) \<Longrightarrow> digest (arts s' ! i) = digest (arts s ! i)"
  shows "wf H s'"
proof (rule wfI)
  fix d t assume "hashes (top_of s') d = Some t"
  then show "t < length (arts s') \<and> digest (arts s' ! t) = d"
    using wf_hashes[OF assms(1), of d t] assms(2,3) assms(5)[of t] by simp
next
  fix i assume "i < length (arts s')"
  then show "bdx (arts s' ! i) \<noteq> [] \<and>
      digest (arts s' ! i) = H (bdx (arts s' ! i)) \<and>
      hashes (top_of s') (digest (arts s' ! i)) = Some i"
    using wf_arts[OF assms(1), of i] assms(2,3) assms(4)[of i] assms(5)[of i] by auto
qed

lemma wf_upd_same:
  "wf H s \<Longrightarrow> (\<And>x. bdx (f x) = bdx x) \<Longrightarrow> (\<And>x. digest (f x) = digest x)
    \<Longrightarrow> wf H (upd_art a f s)"
  by (erule wf_frame) (simp_all add: upd_simps nth_upd)

lemma add_parent_ok:
  "Artifact t \<noteq> p \<Longrightarrow> add_parent t p s =
     (Inr (), (case p of
        Excavation \<Rightarrow> upd_top (\<lambda>t'. t'\<lparr>top_children := top_children t' @ [t]\<rparr>)
      | Artifact q \<Rightarrow> upd_art q (\<lambda>x. x\<lparr>children := children x @ [t]\<rparr>))
        (upd_art t (\<lambda>x. x\<lparr>parents := parents x @ [p]\<rparr>) s))"
  by (cases p) (simp_all add: add_parent_def Let_def)

lemma add_parent_fail: "add_parent t (Artifact t) s = (Inl AssertionError, s)"
  by (simp add: add_parent_def)

lemma wf_add_parent: "wf H s \<Longrightarrow> wf H (snd (add_parent t p s))"
proof (cases "Artifact t = p")
  case True then show "wf H s \<Longrightarrow> ?thesis" by (auto simp: add_parent_fail)
next
  case False
  assume w: "wf H s"
  show ?thesis
  proof (cases p)
    case Excavation
    then show ?thesis using w False
      by (simp add: add_parent_ok) (erule wf_frame; simp add: upd_simps nth_upd)
  next
    case (Artifact q)
    then show ?thesis using w False
      by (simp add: add_parent_ok) (erule wf_frame; simp add: upd_simps nth_upd)
  qed
qed

lemma init_fail: "init up dg [] s = (Inl AssertionError, s)"
  by (simp add: init_def)

lemma init_artifact:
  assumes "b \<noteq> []" "p < length (arts s)"
  shows "init (Artifact p) dg b s =
    (Inr (length (arts s)),
     s\<lparr>top_of := (top_of s)\<lparr>hashes := (hashes (top_of s))(dg \<mapsto> length (arts s))\<rparr>,
       arts := (arts s)[p := (arts s ! p)\<lparr>children := children (arts s ! p) @ [length (arts s)]\<rparr>]
               @ [(fresh dg b)\<lparr>parents := [Artifact p]\<rparr>]\<rparr>)"
  using assms
  by (simp add: init_def add_parent_def add_artifact_def upd_art_def upd_top_def Let_def
      nth_append list_update_append fresh_def)

lemma create_new:
  assumes "source H bits start stop records self s = Inr (Some (b, dg))"
    and "hashes (top_of s) dg = None" "b \<noteq> []" "self < length (arts s)"
  shows "create H bits start stop records self s =
    (Inr (length (arts s)),
     s\<lparr>top_of := (top_of s)\<lparr>hashes := (hashes (top_of s))(dg \<mapsto> length (arts s))\<rparr>,
       arts := (arts s)[self := (arts s ! self)
                 \<lparr>children := children (arts s ! self) @ [length (arts s)],
                  layout := layout (arts s ! self) @ lay start stop (length (arts s))\<rparr>]
               @ [(fresh dg b)\<lparr>parents := [Artifact self]\<rparr>]\<rparr>)"
  using assms
  by (simp add: create_def init_artifact upd_art_def nth_append list_update_append lay_def)

lemma upd3: "t \<noteq> self \<Longrightarrow> xs[self := a, t := b, self := c] = xs[t := b, self := c]"
  by (metis list_update_overwrite list_update_swap)

lemma create_old:
  assumes "source H bits start stop records self s = Inr (Some (b, dg))"
    and "hashes (top_of s) dg = Some t" "bdx (arts s ! t) \<noteq> []" "t \<noteq> self"
    and "self < length (arts s)" "t < length (arts s)"
  shows "create H bits start stop records self s =
    (Inr t,
     s\<lparr>arts := (arts s)[t := (arts s ! t)\<lparr>parents := parents (arts s ! t) @ [Artifact self]\<rparr>,
                       self := (arts s ! self)
                 \<lparr>children := children (arts s ! self) @ [t],
                  layout := layout (arts s ! self) @ lay start stop t\<rparr>]\<rparr>)"
  using assms
  by (simp add: create_def add_parent_ok upd_art_def len_def lay_def upd3 nth_upd)

lemma create_self:
  assumes "source H bits start stop records self s = Inr (Some (b, dg))"
    and "hashes (top_of s) dg = Some self" "bdx (arts s ! self) \<noteq> []"
  shows "create H bits start stop records self s = (Inl AssertionError, s)"
  using assms
  by (simp add: create_def add_parent_fail len_def)

lemma create_cases [consumes 2, case_names err same new old]:
  assumes "wf H s" "self < length (arts s)"
  obtains e where "create H bits start stop records self s = (Inl e, s)"
  | "create H bits start stop records self s = (Inr self, s)"
  | b where "b \<noteq> []" "hashes (top_of s) (H b) = None"
      "source H bits start stop records self s = Inr (Some (b, H b))"
      "create H bits start stop records self s =
         (Inr (length (arts s)), new_store s self b (H b) (lay start stop (length (arts s))))"
  | b t where "hashes (top_of s) (H b) = Some t" "t \<noteq> self" "t < length (arts s)"
      "source H bits start stop records self s = Inr (Some (b, H b))"
      "create H bits start stop records self s = (Inr t, old_store s self t (lay start stop t))"
proof (cases "source H bits start stop records self s")
  case (Inl e)
  then have "create H bits start stop records self s = (Inl e, s)" by (simp add: create_def)
  then show ?thesis by (rule that(1))
next
  case (Inr r)
  show ?thesis
  proof (cases r)
    case None
    then have "create H bits start stop records self s = (Inr self, s)"
      using Inr by (simp add: create_def)
    then show ?thesis by (rule that(2))
  next
    case (Some bd)
    obtain b dg where bd: "bd = (b, dg)" by (cases bd)
    have dg: "dg = H b" using Inr Some bd source_digest by blast
    have src: "source H bits start stop records self s = Inr (Some (b, H b))"
      using Inr Some bd dg by simp
    show ?thesis
    proof (cases "hashes (top_of s) (H b)")
      case None
      show ?thesis
      proof (cases "b = []")
        case True
        have "create H bits start stop records self s = (Inl AssertionError, s)"
          using src None True by (simp add: create_def init_fail)
        then show ?thesis by (rule that(1))
      next
        case False
        show ?thesis
          using that(3)[OF False None src] create_new[OF src None False assms(2)]
          by (simp add: new_store_def)
      qed
    next
      case (Some t)
      have t: "t < length (arts s)" "bdx (arts s ! t) \<noteq> []"
        using wf_hashes[OF assms(1) Some] wf_arts[OF assms(1), of t] by auto
      show ?thesis
      proof (cases "t = self")
        case True
        have "create H bits start stop records self s = (Inl AssertionError, s)"
          using create_self[OF src] Some True t by simp
        then show ?thesis by (rule that(1))
      next
        case False
        show ?thesis
          using that(4)[OF Some False t(1) src] create_old[OF src Some t(2) False assms(2) t(1)]
          by (simp add: old_store_def)
      qed
    qed
  qed
qed

lemma wf_old_store:
  "wf H s \<Longrightarrow> wf H (old_store s self t l)"
  by (erule wf_frame) (simp_all add: old_store_def nth_upd)

lemma wf_new_store:
  assumes "wf H s" "hashes (top_of s) (H b) = None" "b \<noteq> []" "self < length (arts s)"
  shows "wf H (new_store s self b (H b) l)"
proof (rule wfI)
  fix d t assume "hashes (top_of (new_store s self b (H b) l)) d = Some t"
  then show "t < length (arts (new_store s self b (H b) l)) \<and>
      digest (arts (new_store s self b (H b) l) ! t) = d"
    using wf_hashes[OF assms(1), of d t] assms(4)
    by (auto simp: new_store_def nth_append nth_upd fresh_def split: if_splits)
next
  fix i assume i: "i < length (arts (new_store s self b (H b) l))"
  have neq: "\<And>j. j < length (arts s) \<Longrightarrow> digest (arts s ! j) \<noteq> H b"
    using wf_arts[OF assms(1)] assms(2) by fastforce
  show "bdx (arts (new_store s self b (H b) l) ! i) \<noteq> [] \<and>
      digest (arts (new_store s self b (H b) l) ! i) =
        H (bdx (arts (new_store s self b (H b) l) ! i)) \<and>
      hashes (top_of (new_store s self b (H b) l))
        (digest (arts (new_store s self b (H b) l) ! i)) = Some i"
  proof (cases "i < length (arts s)")
    case True
    then show ?thesis
      using wf_arts[OF assms(1) True] neq[OF True]
      by (auto simp: new_store_def nth_append nth_upd)
  next
    case False
    then have "i = length (arts s)" using i by (simp add: new_store_def)
    then show ?thesis using assms(3)
      by (simp add: new_store_def nth_append fresh_def)
  qed
qed

lemma wf_create:
  assumes "wf H s" "self < length (arts s)"
  shows "wf H (snd (create H bits start stop records self s))"
  using assms
proof (cases rule: create_cases[where bits=bits and start=start and stop=stop and records=records])
  case (err e) then show ?thesis using assms by simp
next
  case same then show ?thesis using assms by simp
next
  case (new b) then show ?thesis using wf_new_store[OF assms(1) new(2) new(1) assms(2)] by simp
next
  case (old b t) then show ?thesis using wf_old_store[OF assms(1)] by simp
qed

lemma nse_create_calls:
  "no_self_edges s \<Longrightarrow> no_self_edges (create_calls H cs s)"
proof (induction cs arbitrary: s)
  case Nil then show ?case by simp
next
  case (Cons c cs)
  obtain bits start stop records self where c: "c = (bits, start, stop, records, self)"
    by (cases c)
  show ?case using Cons.IH[OF nse_create[OF Cons.prems]] c by simp
qed

lemma source_bytes: "b \<noteq> [] \<Longrightarrow>
  source H (Some (Bytes b)) start stop None self s = Inr (Some (b, H b))"
  by (simp add: source_def)

lemma source_memoryview:
  "source H (Some (MemoryView b)) start stop None self s = Inr (Some (b, H b))"
  by (simp add: source_def)

lemma wf_store8: "wf (\<lambda>b. b) store8"
  by (rule wfI) (auto simp: store8_eq split: if_splits)

lemma nse_store8: "no_self_edges store8"
  by (simp add: no_self_edges_def store8_eq)

subsection \<open>Self-derivation\<close>

text \<open>
  C10. In a well-formed store, if the digest of the input \<open>b\<close> is the digest of the
  artifact \<open>a\<close>, then \<^verbatim>\<open>a.create(bits=b)\<close> does not return \<open>a\<close>: the lookup finds
  \<open>a\<close> itself, \<^verbatim>\<open>add_parent\<close> asserts \<^verbatim>\<open>self != parent\<close>, and the call ends in an
  \<open>AssertionError\<close> with the store as it was (for a \<^verbatim>\<open>bytes\<close> object and for a
  \<^verbatim>\<open>memoryview\<close> alike). And whatever \<^verbatim>\<open>create\<close> calls are made, failed or not, on a
  store where no artifact is its own parent or child, none is afterwards.
\<close>

theorem self_derivation_aborts:
  assumes "wf H s" and "a < length (arts s)" and "H b = digest (arts s ! a)" and "b \<noteq> []"
  shows "create H (Some (Bytes b)) None None None a s = (Inl AssertionError, s) \<and>
         create H (Some (MemoryView b)) None None None a s = (Inl AssertionError, s) \<and>
         (\<forall>cs s0. no_self_edges s0 \<longrightarrow> no_self_edges (create_calls H cs s0))"
proof -
  have h: "hashes (top_of s) (H b) = Some a" and ne: "bdx (arts s ! a) \<noteq> []"
    using wf_arts[OF assms(1,2)] assms(3) by auto
  show ?thesis
    using create_self[OF source_bytes[OF assms(4), of H None None a s] h ne]
      create_self[OF source_memoryview[of H b None None a s] h ne]
      nse_create_calls
    by blast
qed

theorem self_derivation_aborts_witness:
  "create (\<lambda>b. b) (Some (Bytes ''AAAABBBB'')) None None None 0 store8 = (Inl AssertionError, store8) \<and>
   no_self_edges (create_calls (\<lambda>b. b)
     [(Some (Bytes ''AAAABBBB''), None, None, None, 0), (Some (Bytes ''XYZ''), None, None, None, 0),
      (Some (Bytes ''XYZ''), None, None, None, 1)] store8)"
proof -
  have 1: "0 < length (arts store8)" by (simp add: store8_eq)
  have 2: "''AAAABBBB'' = digest (arts store8 ! 0)" by (simp add: store8_eq)
  have 3: "''AAAABBBB'' \<noteq> []" by simp
  show ?thesis
    using self_derivation_aborts [of "\<lambda>b. b" store8 0 "''AAAABBBB''", OF wf_store8 1 _ 3] 2 nse_store8
    by blast
qed

subsection \<open>Content-addressed identity\<close>

lemma lay_None: "lay None None c = []"
  by (simp add: lay_def truthy_def)

lemma create_bits_ok:
  assumes "wf H s" and "self < length (arts s)" and "b \<noteq> []"
    and "hashes (top_of s) (H b) \<noteq> Some self"
  shows "\<exists>this s1. create H (Some (Bytes b)) None None None self s = (Inr this, s1) \<and>
     wf H s1 \<and> length (arts s) \<le> length (arts s1) \<and>
     hashes (top_of s1) (H b) = Some this \<and>
     this = (case hashes (top_of s) (H b) of None \<Rightarrow> length (arts s) | Some t \<Rightarrow> t) \<and>
     parents (arts s1 ! this) =
       (case hashes (top_of s) (H b) of None \<Rightarrow> [] | Some t \<Rightarrow> parents (arts s ! t)) @ [Artifact self] \<and>
     children (arts s1 ! self) = children (arts s ! self) @ [this]"
proof (cases "hashes (top_of s) (H b)")
  case None
  have c: "create H (Some (Bytes b)) None None None self s =
      (Inr (length (arts s)), new_store s self b (H b) [])"
    using create_new[OF source_bytes[OF assms(3), of H None None self s] None assms(3,2)]
    by (simp add: new_store_def lay_None)
  have w: "wf H (new_store s self b (H b) [])"
    by (rule wf_new_store[OF assms(1) None assms(3,2)])
  show ?thesis
    using c w None assms(2)
    by (simp add: new_store_def nth_append fresh_def)
next
  case (Some t)
  have t: "t < length (arts s)" "bdx (arts s ! t) \<noteq> []" "t \<noteq> self"
    using wf_hashes[OF assms(1) Some] wf_arts[OF assms(1), of t] assms(4) Some by auto
  have c: "create H (Some (Bytes b)) None None None self s = (Inr t, old_store s self t [])"
    using create_old[OF source_bytes[OF assms(3), of H None None self s] Some t(2,3) assms(2) t(1)]
    by (simp add: old_store_def lay_None)
  have w: "wf H (old_store s self t [])"
    by (rule wf_old_store[OF assms(1)])
  show ?thesis
    using c w Some assms(2) t
    by (simp add: old_store_def nth_upd)
qed

lemma store2_eq:
  "store2 =
     \<lparr>top_of = \<lparr>hashes = [''AAAABBBB'' \<mapsto> 0, ''CCCC'' \<mapsto> 1], names = {}, index = Map.empty,
                top_level = [0, 1], top_children = [0, 1], digest_prefix = 8\<rparr>,
      arts = [\<lparr>bdx = ''AAAABBBB'', digest = ''AAAABBBB'', parents = [Excavation],
               children = [], named = None, notes_of = {}, types_of = {},
               descriptions = [], comments = [], taken = False, layout = []\<rparr>,
              \<lparr>bdx = ''CCCC'', digest = ''CCCC'', parents = [Excavation],
               children = [], named = None, notes_of = {}, types_of = {},
               descriptions = [], comments = [], taken = False, layout = []\<rparr>]\<rparr>"
  by (simp add: store2_def store8_eq top_level_artifact_def init_def add_parent_def add_artifact_def
      upd_art_def upd_top_def fresh_def)

lemma wf_store2: "wf (\<lambda>b. b) store2"
  by (rule wfI) (auto simp: store2_eq nth_Cons' split: if_splits)

text \<open>
  C1, as the source has it. In a well-formed store, let \<open>b\<close> be a non-empty byte
  sequence and \<open>p1\<close>, \<open>p2\<close> two artifacts (possibly the same one), neither of them the
  artifact registered under the digest of \<open>b\<close>. Then \<^verbatim>\<open>p1.create(bits=b)\<close> followed by
  \<^verbatim>\<open>p2.create(bits=b)\<close> both succeed and return the same artifact; afterwards it is
  the artifact \<open>hashes\<close> holds for the digest of \<open>b\<close> and the only artifact of the store
  with that digest; its parents are those it had (none if it is new) followed by \<open>p1\<close>
  and \<open>p2\<close>, and each call appended it to the children of its caller.
\<close>

theorem content_addressed_identity:
  assumes "wf H s" and "p1 < length (arts s)" and "p2 < length (arts s)" and "b \<noteq> []"
    and "hashes (top_of s) (H b) \<noteq> Some p1" and "hashes (top_of s) (H b) \<noteq> Some p2"
  shows "\<exists>this s1 s2.
     create H (Some (Bytes b)) None None None p1 s = (Inr this, s1) \<and>
     create H (Some (Bytes b)) None None None p2 s1 = (Inr this, s2) \<and>
     hashes (top_of s2) (H b) = Some this \<and>
     (\<forall>i < length (arts s2). digest (arts s2 ! i) = H b \<longleftrightarrow> i = this) \<and>
     parents (arts s2 ! this) =
       (case hashes (top_of s) (H b) of None \<Rightarrow> [] | Some t \<Rightarrow> parents (arts s ! t))
         @ [Artifact p1, Artifact p2] \<and>
     children (arts s1 ! p1) = children (arts s ! p1) @ [this] \<and>
     children (arts s2 ! p2) = children (arts s1 ! p2) @ [this]"
proof -
  obtain this s1 where 1:
    "create H (Some (Bytes b)) None None None p1 s = (Inr this, s1)"
    "wf H s1" "length (arts s) \<le> length (arts s1)"
    "hashes (top_of s1) (H b) = Some this"
    "this = (case hashes (top_of s) (H b) of None \<Rightarrow> length (arts s) | Some t \<Rightarrow> t)"
    "parents (arts s1 ! this) =
       (case hashes (top_of s) (H b) of None \<Rightarrow> [] | Some t \<Rightarrow> parents (arts s ! t)) @ [Artifact p1]"
    "children (arts s1 ! p1) = children (arts s ! p1) @ [this]"
    using create_bits_ok[OF assms(1,2,4,5)] by blast
  have p2: "p2 < length (arts s1)" using assms(3) 1(3) by simp
  have ne: "hashes (top_of s1) (H b) \<noteq> Some p2"
    using 1(4,5) assms(3,6) by (auto split: option.splits)
  obtain this' s2 where 2:
    "create H (Some (Bytes b)) None None None p2 s1 = (Inr this', s2)"
    "wf H s2"
    "hashes (top_of s2) (H b) = Some this'"
    "this' = (case hashes (top_of s1) (H b) of None \<Rightarrow> length (arts s1) | Some t \<Rightarrow> t)"
    "parents (arts s2 ! this') =
       (case hashes (top_of s1) (H b) of None \<Rightarrow> [] | Some t \<Rightarrow> parents (arts s1 ! t)) @ [Artifact p2]"
    "children (arts s2 ! p2) = children (arts s1 ! p2) @ [this']"
    using create_bits_ok[OF 1(2) p2 assms(4) ne] by blast
  have same: "this' = this"
    using 2(4) 1(4) by simp
  have uniq: "\<forall>i < length (arts s2). digest (arts s2 ! i) = H b \<longleftrightarrow> i = this"
  proof (intro allI impI)
    fix i assume i: "i < length (arts s2)"
    show "digest (arts s2 ! i) = H b \<longleftrightarrow> i = this"
      using wf_arts[OF 2(2) i] wf_hashes[OF 2(2,3)] same 2(3) by auto
  qed
  have par: "parents (arts s2 ! this) =
       (case hashes (top_of s) (H b) of None \<Rightarrow> [] | Some t \<Rightarrow> parents (arts s ! t))
         @ [Artifact p1, Artifact p2]"
    using 2(5) 1(4,6) same by simp
  show ?thesis
    using 1(1,7) 2(1,3,6) same uniq par by blast
qed

theorem content_addressed_identity_witness:
  "\<exists>this s1 s2.
     create (\<lambda>b. b) (Some (Bytes ''XYZ'')) None None None 0 store2 = (Inr this, s1) \<and>
     create (\<lambda>b. b) (Some (Bytes ''XYZ'')) None None None 1 s1 = (Inr this, s2) \<and>
     hashes (top_of s2) ''XYZ'' = Some this \<and>
     parents (arts s2 ! this) = [Artifact 0, Artifact 1]"
proof -
  have 1: "0 < length (arts store2)" "1 < length (arts store2)" by (simp_all add: store2_eq)
  have 2: "hashes (top_of store2) ''XYZ'' = None" by (simp add: store2_eq)
  have 3: "''XYZ'' \<noteq> []" by simp
  show ?thesis
    using content_addressed_identity [of "\<lambda>b. b" store2 0 1 "''XYZ''", OF wf_store2 1 3] 2
    by auto
qed

text \<open>
  C1 as claimed, for every byte sequence, fails on the store of two artifacts: with the
  bytes of the caller itself the call ends in the assertion of \<^verbatim>\<open>add_parent\<close>, and
  with no bytes at all in a \<open>TypeError\<close>; neither call returns an artifact.
\<close>

theorem content_addressed_identity_counterexample:
  "(\<nexists>this s1. create (\<lambda>b. b) (Some (Bytes ''AAAABBBB'')) None None None 0 store2 = (Inr this, s1)) \<and>
   (\<nexists>this s1. create (\<lambda>b. b) (Some (Bytes [])) None None None 0 store2 = (Inr this, s1))"
  by (simp add: store2_eq create_def source_def slice_source_def add_parent_def len_def)

subsection \<open>Names\<close>

lemmas note_defs = add_note_def add_to_index_def upd_simps nth_upd

lemma store2_alpha_eq:
  "store2_alpha =
     \<lparr>top_of = \<lparr>hashes = [''AAAABBBB'' \<mapsto> 0, ''CCCC'' \<mapsto> 1], names = {''alpha''},
                index = [''alpha'' \<mapsto> {0}],
                top_level = [0, 1], top_children = [0, 1], digest_prefix = 8\<rparr>,
      arts = [\<lparr>bdx = ''AAAABBBB'', digest = ''AAAABBBB'', parents = [Excavation],
               children = [], named = Some ''alpha'', notes_of = {}, types_of = {},
               descriptions = [], comments = [], taken = False, layout = []\<rparr>,
              \<lparr>bdx = ''CCCC'', digest = ''CCCC'', parents = [Excavation],
               children = [], named = None, notes_of = {}, types_of = {},
               descriptions = [], comments = [], taken = False, layout = []\<rparr>]\<rparr>"
  by (simp add: store2_alpha_def store2_eq set_name_def note_defs)

text \<open>
  C5. For every artifact \<open>self\<close> of the store and every name \<open>n\<close>:
  if \<open>self\<close> already bears \<open>n\<close>, \<^verbatim>\<open>set_name\<close> changes nothing;
  if it bears another name, or \<open>n\<close> is in \<^verbatim>\<open>top.names\<close>, then without fallback the call
  fails with \<open>DuplicateName\<close> and the store is as it was, and with fallback \<open>n\<close> becomes
  a note of \<open>self\<close> and \<open>self\<close> is added to the index under \<open>n\<close>, the name of \<open>self\<close> and
  \<^verbatim>\<open>top.names\<close> staying as they were;
  otherwise \<open>n\<close> is added to \<^verbatim>\<open>top.names\<close>, becomes the name of \<open>self\<close>, and \<open>self\<close> is
  added to the index under \<open>n\<close>.
\<close>

theorem set_name_semantics:
  assumes "self < length (arts s)"
  shows "(named (arts s ! self) = Some n \<longrightarrow> set_name n fb self s = (Inr (), s)) \<and>
   (named (arts s ! self) \<noteq> Some n \<and> (named (arts s ! self) \<noteq> None \<or> n \<in> names (top_of s)) \<longrightarrow>
       set_name n False self s = (Inl DuplicateName, s) \<and>
       (\<exists>s'. set_name n True self s = (Inr (), s') \<and>
             named (arts s' ! self) = named (arts s ! self) \<and>
             notes_of (arts s' ! self) = insert n (notes_of (arts s ! self)) \<and>
             index (top_of s') n =
               Some (insert self (case index (top_of s) n of None \<Rightarrow> {} | Some S \<Rightarrow> S)) \<and>
             names (top_of s') = names (top_of s))) \<and>
   (named (arts s ! self) = None \<and> n \<notin> names (top_of s) \<longrightarrow>
       (\<exists>s'. set_name n fb self s = (Inr (), s') \<and>
             names (top_of s') = insert n (names (top_of s)) \<and>
             named (arts s' ! self) = Some n \<and>
             notes_of (arts s' ! self) = notes_of (arts s ! self) \<and>
             index (top_of s') n =
               Some (insert self (case index (top_of s) n of None \<Rightarrow> {} | Some S \<Rightarrow> S))))"
proof (intro conjI impI)
  assume "named (arts s ! self) = Some n"
  then show "set_name n fb self s = (Inr (), s)" by (simp add: set_name_def)
next
  assume a: "named (arts s ! self) \<noteq> Some n \<and> (named (arts s ! self) \<noteq> None \<or> n \<in> names (top_of s))"
  then show "set_name n False self s = (Inl DuplicateName, s)"
    by (auto simp: set_name_def)
  have "set_name n True self s = (Inr (), add_to_index n self (add_note n self s))"
    using a by (auto simp: set_name_def)
  then show "\<exists>s'. set_name n True self s = (Inr (), s') \<and>
             named (arts s' ! self) = named (arts s ! self) \<and>
             notes_of (arts s' ! self) = insert n (notes_of (arts s ! self)) \<and>
             index (top_of s') n =
               Some (insert self (case index (top_of s) n of None \<Rightarrow> {} | Some S \<Rightarrow> S)) \<and>
             names (top_of s') = names (top_of s)"
    using assms by (simp add: note_defs)
next
  assume a: "named (arts s ! self) = None \<and> n \<notin> names (top_of s)"
  then show "\<exists>s'. set_name n fb self s = (Inr (), s') \<and>
             names (top_of s') = insert n (names (top_of s)) \<and>
             named (arts s' ! self) = Some n \<and>
             notes_of (arts s' ! self) = notes_of (arts s ! self) \<and>
             index (top_of s') n =
               Some (insert self (case index (top_of s) n of None \<Rightarrow> {} | Some S \<Rightarrow> S))"
    using assms by (simp add: set_name_def note_defs)
qed

theorem set_name_semantics_witness:
  "set_name ''alpha'' False 1 store2_alpha = (Inl DuplicateName, store2_alpha) \<and>
   (\<exists>s'. set_name ''alpha'' True 1 store2_alpha = (Inr (), s') \<and>
      named (arts s' ! 0) = Some ''alpha'' \<and> named (arts s' ! 1) = None \<and>
      ''alpha'' \<in> notes_of (arts s' ! 1) \<and> index (top_of s') ''alpha'' = Some {0, 1})"
proof -
  have 1: "1 < length (arts store2_alpha)" by (simp add: store2_alpha_eq)
  have a: "\<And>s'. set_name ''alpha'' True 1 store2_alpha = (Inr (), s') \<Longrightarrow>
      named (arts s' ! 0) = Some ''alpha''"
    by (auto simp: set_name_def store2_alpha_eq note_defs)
  have b: "named (arts store2_alpha ! 1) = None" "''alpha'' \<in> names (top_of store2_alpha)"
    "index (top_of store2_alpha) ''alpha'' = Some {0}"
    by (simp_all add: store2_alpha_eq)
  show ?thesis
    using set_name_semantics [of 1 store2_alpha "''alpha''" True, OF 1] a b
    by auto
qed

subsection \<open>Examination: the layouts it does not reconcile\<close>

lemmas create_defs = create_def source_def slice_source_def len_def truthy_def py_slice_def
  init_def add_parent_def add_artifact_def upd_art_def upd_top_def fresh_def

lemma store8_mixed_layout:
  "layout (arts store8_mixed ! 0) = [(None, Some 5, 1), (Some 0, Some 4, 2)]"
  by (simp add: store8_mixed_def store8_eq create_defs)

text \<open>
  C9, at a layout that two \<^verbatim>\<open>create\<close> calls produce. \<^verbatim>\<open>examined\<close> does not complete:
  \<^verbatim>\<open>sorted\<close> compares the tuple \<open>(0, 4, _)\<close> with \<open>(None, 5, _)\<close>, that is \<open>0\<close> with
  \<^verbatim>\<open>None\<close>, and raises \<open>TypeError\<close> before the loop that would skip the entry is reached.
\<close>

theorem examined_raises_on_none_endpoint:
  "layout (arts store8_mixed ! 0) = [(None, Some 5, 1), (Some 0, Some 4, 2)] \<and>
   examined (\<lambda>b. b) 0 store8_mixed = (Inl TypeError, store8_mixed)"
  by (simp add: store8_mixed_layout examined_def sorted_py_def)

lemma store8_nested_eq:
  "store8_nested =
     \<lparr>top_of = \<lparr>hashes = [''AAAABBBB'' \<mapsto> 0, ''AAAABB'' \<mapsto> 1, ''AA'' \<mapsto> 2], names = {},
                index = Map.empty, top_level = [0], top_children = [0], digest_prefix = 8\<rparr>,
      arts = [\<lparr>bdx = ''AAAABBBB'', digest = ''AAAABBBB'', parents = [Excavation],
               children = [1, 2], named = None, notes_of = {}, types_of = {},
               descriptions = [], comments = [], taken = False,
               layout = [(Some 0, Some 6, 1), (Some 2, Some 4, 2)]\<rparr>,
              \<lparr>bdx = ''AAAABB'', digest = ''AAAABB'', parents = [Artifact 0],
               children = [], named = None, notes_of = {}, types_of = {},
               descriptions = [], comments = [], taken = False, layout = []\<rparr>,
              \<lparr>bdx = ''AA'', digest = ''AA'', parents = [Artifact 0],
               children = [], named = None, notes_of = {}, types_of = {},
               descriptions = [], comments = [], taken = False, layout = []\<rparr>]\<rparr>"
  by (simp add: store8_nested_def store8_eq create_defs numeral_2_eq_2)

text \<open>
  C3, at a layout whose second range \<open>[2,4)\<close> lies inside the first \<open>[0,6)\<close>. The cursor
  after the second entry is its stop, 4, not the maximum 6, so \<^verbatim>\<open>examined\<close> creates the
  gap \<open>[4,8)\<close> although the bytes 4 and 5 are claimed by the first entry.
\<close>

theorem examined_gap_over_claimed_bytes:
  "layout (arts store8_nested ! 0) = [(Some 0, Some 6, 1), (Some 2, Some 4, 2)] \<and>
   walk [(Some 0, Some 6, 1), (Some 2, Some 4, 2)] 0 [] = (4, []) \<and>
   covered (layout (arts store8_nested ! 0)) 4 \<and> covered (layout (arts store8_nested ! 0)) 5 \<and>
   (\<exists>s'. examined (\<lambda>b. b) 0 store8_nested = (Inr (), s') \<and>
      layout (arts s' ! 0) = [(Some 0, Some 6, 1), (Some 2, Some 4, 2), (Some 4, Some 8, 3)] \<and>
      bdx (arts s' ! 3) = ''BBBB'')"
  by (simp add: store8_nested_eq examined_def sorted_py_def gaps_def covered_def create_defs)

subsection \<open>Recursive iteration\<close>

lemma desc_step:
  "d \<in> descendants s c \<Longrightarrow> c \<in> set (children (arts s ! a)) \<Longrightarrow> d \<in> descendants s a"
proof (induction rule: descendants.induct)
  case self
  show ?case by (rule descendants.child[OF descendants.self self])
next
  case (child d c')
  show ?case by (rule descendants.child[OF child.IH[OF child.prems] child.hyps(2)])
qed

lemma desc_cases:
  "d \<in> descendants s a \<Longrightarrow> d = a \<or> (\<exists>c \<in> set (children (arts s ! a)). d \<in> descendants s c)"
proof (induction rule: descendants.induct)
  case self
  show ?case by simp
next
  case (child d c')
  show ?case
  proof (cases "d = a")
    case True
    then have "c' \<in> set (children (arts s ! a))" using child.hyps(2) by simp
    moreover have "c' \<in> descendants s c'" by (rule descendants.self)
    ultimately show ?thesis by (intro disjI2 bexI)
  next
    case False
    then obtain c where c: "c \<in> set (children (arts s ! a))" "d \<in> descendants s c"
      using child.IH by auto
    have "c' \<in> descendants s c" by (rule descendants.child[OF c(2) child.hyps(2)])
    then show ?thesis using c(1) by (intro disjI2 bexI)
  qed
qed

lemma desc_unfold:
  "descendants s a = insert a (\<Union>c \<in> set (children (arts s ! a)). descendants s c)"
proof (rule set_eqI)
  fix d
  show "d \<in> descendants s a \<longleftrightarrow>
      d \<in> insert a (\<Union>c \<in> set (children (arts s ! a)). descendants s c)"
    using desc_cases[of d s a] desc_step[of d s _ a] descendants.self[of a s] by auto
qed

lemma foldl_yield_from:
  assumes "\<forall>c \<in> set cs. f c = Some (Inr (g c))"
  shows "foldl (\<lambda>acc c. yield_from acc (f c)) (Some (Inr m0)) cs =
         Some (Inr (m0 + sum_list (map g cs)))"
  using assms by (induction cs arbitrary: m0) (simp_all add: add.assoc)

lemma count_sum_list_map:
  "count (sum_list (map g cs)) x = sum_list (map (\<lambda>c. count (g c) x) cs)"
  by (induction cs) simp_all

lemma count_own:
  "finite N \<Longrightarrow> count (image_mset (Pair a) (mset_set N)) (d, n) = (if d = a \<and> n \<in> N then 1 else 0)"
  by (induction N rule: finite_induct) auto

lemma dag_child:
  "dag h s \<Longrightarrow> a < length (arts s) \<Longrightarrow> c \<in> set (children (arts s ! a)) \<Longrightarrow>
     c < length (arts s) \<and> h c < h a"
  unfolding dag_def by blast

lemma finite_tagsD:
  "finite_tags s \<Longrightarrow> a < length (arts s) \<Longrightarrow>
     finite (notes_of (arts s ! a)) \<and> finite (types_of (arts s ! a))"
  unfolding finite_tags_def by blast

lemma iter_notes_dag:
  assumes "dag h s" and "finite_tags s"
  shows "a < length (arts s) \<Longrightarrow> h a < k \<Longrightarrow>
    \<exists>m. iter_notes k True a s = Some (Inr m) \<and>
        set_mset m = {(d, n). d \<in> descendants s a \<and> n \<in> notes_of (arts s ! d)} \<and>
        (\<forall>d n. count m (d, n) = (if n \<in> notes_of (arts s ! d) then paths k s a d else 0))"
proof (induction k arbitrary: a)
  case 0
  then show ?case by simp
next
  case (Suc k)
  let ?cs = "children (arts s ! a)"
  let ?own = "image_mset (Pair a) (mset_set (notes_of (arts s ! a)))"
  let ?f = "\<lambda>child. if child = a then Some (Inl AssertionError) else iter_notes k True child s"
  define g where "g c = (case iter_notes k True c s of Some (Inr m) \<Rightarrow> m | _ \<Rightarrow> {#})" for c
  have fin: "finite (notes_of (arts s ! a))"
    using finite_tagsD[OF assms(2) Suc.prems(1)] by simp
  have ch: "\<And>c. c \<in> set ?cs \<Longrightarrow> c \<noteq> a \<and>
      iter_notes k True c s = Some (Inr (g c)) \<and>
      set_mset (g c) = {(d, n). d \<in> descendants s c \<and> n \<in> notes_of (arts s ! d)} \<and>
      (\<forall>d n. count (g c) (d, n) = (if n \<in> notes_of (arts s ! d) then paths k s c d else 0))"
  proof -
    fix c assume c: "c \<in> set ?cs"
    have v: "c < length (arts s)" "h c < h a"
      using dag_child[OF assms(1) Suc.prems(1) c] by simp_all
    have "h c < k" using v(2) Suc.prems(2) by simp
    from Suc.IH[OF v(1) this] obtain m where m: "iter_notes k True c s = Some (Inr m)"
      "set_mset m = {(d, n). d \<in> descendants s c \<and> n \<in> notes_of (arts s ! d)}"
      "\<forall>d n. count m (d, n) = (if n \<in> notes_of (arts s ! d) then paths k s c d else 0)"
      by blast
    have "g c = m" using m(1) by (simp add: g_def)
    then show "c \<noteq> a \<and>
      iter_notes k True c s = Some (Inr (g c)) \<and>
      set_mset (g c) = {(d, n). d \<in> descendants s c \<and> n \<in> notes_of (arts s ! d)} \<and>
      (\<forall>d n. count (g c) (d, n) = (if n \<in> notes_of (arts s ! d) then paths k s c d else 0))"
      using m v(2) by auto
  qed
  have f: "\<forall>c \<in> set ?cs. ?f c = Some (Inr (g c))" using ch by simp
  have res: "iter_notes (Suc k) True a s = Some (Inr (?own + sum_list (map g ?cs)))"
    using foldl_yield_from[OF f, of ?own] by (simp add: Let_def)
  have set_eq: "set_mset (?own + sum_list (map g ?cs)) =
      {(d, n). d \<in> descendants s a \<and> n \<in> notes_of (arts s ! d)}"
  proof -
    have "set_mset (?own + sum_list (map g ?cs)) =
        Pair a ` notes_of (arts s ! a) \<union> (\<Union>c \<in> set ?cs. set_mset (g c))"
      using fin by (simp add: set_mset_sum_list)
    also have "\<dots> = Pair a ` notes_of (arts s ! a) \<union>
        (\<Union>c \<in> set ?cs. {(d, n). d \<in> descendants s c \<and> n \<in> notes_of (arts s ! d)})"
      using ch by simp
    also have "\<dots> = {(d, n). d \<in> descendants s a \<and> n \<in> notes_of (arts s ! d)}"
      by (subst (2) desc_unfold) auto
    finally show ?thesis .
  qed
  have cnt: "\<forall>d n. count (?own + sum_list (map g ?cs)) (d, n) =
      (if n \<in> notes_of (arts s ! d) then paths (Suc k) s a d else 0)"
  proof (intro allI)
    fix d n
    have "sum_list (map (\<lambda>c. count (g c) (d, n)) ?cs) =
        sum_list (map (\<lambda>c. if n \<in> notes_of (arts s ! d) then paths k s c d else 0) ?cs)"
      by (rule arg_cong[where f=sum_list], rule map_cong[OF refl]) (use ch in simp)
    also have "\<dots> = (if n \<in> notes_of (arts s ! d)
        then sum_list (map (\<lambda>c. paths k s c d) ?cs) else 0)"
      by simp
    finally show "count (?own + sum_list (map g ?cs)) (d, n) =
      (if n \<in> notes_of (arts s ! d) then paths (Suc k) s a d else 0)"
      using fin by (auto simp: count_sum_list_map count_own)
  qed
  show ?case using res set_eq cnt by blast
qed

lemma iter_types_dag:
  assumes "dag h s" and "finite_tags s"
  shows "a < length (arts s) \<Longrightarrow> h a < k \<Longrightarrow>
    \<exists>t. iter_types k True a s = Some (Inr t) \<and>
        set_mset t = (\<Union>d \<in> descendants s a. types_of (arts s ! d))"
proof (induction k arbitrary: a)
  case 0
  then show ?case by simp
next
  case (Suc k)
  let ?cs = "children (arts s ! a)"
  let ?own = "mset_set (types_of (arts s ! a))"
  let ?f = "\<lambda>child. if child = a then Some (Inl AssertionError) else iter_types k True child s"
  define g where "g c = (case iter_types k True c s of Some (Inr m) \<Rightarrow> m | _ \<Rightarrow> {#})" for c
  have fin: "finite (types_of (arts s ! a))"
    using finite_tagsD[OF assms(2) Suc.prems(1)] by simp
  have ch: "\<And>c. c \<in> set ?cs \<Longrightarrow> c \<noteq> a \<and>
      iter_types k True c s = Some (Inr (g c)) \<and>
      set_mset (g c) = (\<Union>d \<in> descendants s c. types_of (arts s ! d))"
  proof -
    fix c assume c: "c \<in> set ?cs"
    have v: "c < length (arts s)" "h c < h a"
      using dag_child[OF assms(1) Suc.prems(1) c] by simp_all
    have "h c < k" using v(2) Suc.prems(2) by simp
    from Suc.IH[OF v(1) this] obtain m where m: "iter_types k True c s = Some (Inr m)"
      "set_mset m = (\<Union>d \<in> descendants s c. types_of (arts s ! d))"
      by blast
    have "g c = m" using m(1) by (simp add: g_def)
    then show "c \<noteq> a \<and>
      iter_types k True c s = Some (Inr (g c)) \<and>
      set_mset (g c) = (\<Union>d \<in> descendants s c. types_of (arts s ! d))"
      using m v(2) by auto
  qed
  have f: "\<forall>c \<in> set ?cs. ?f c = Some (Inr (g c))" using ch by simp
  have res: "iter_types (Suc k) True a s = Some (Inr (?own + sum_list (map g ?cs)))"
    using foldl_yield_from[OF f, of ?own] by (simp add: Let_def)
  have "set_mset (?own + sum_list (map g ?cs)) =
      types_of (arts s ! a) \<union> (\<Union>c \<in> set ?cs. set_mset (g c))"
    using fin by (simp add: set_mset_sum_list)
  also have "\<dots> = types_of (arts s ! a) \<union>
      (\<Union>c \<in> set ?cs. \<Union>d \<in> descendants s c. types_of (arts s ! d))"
    using ch by simp
  also have "\<dots> = (\<Union>d \<in> descendants s a. types_of (arts s ! d))"
    by (subst (2) desc_unfold) auto
  finally show ?case using res by blast
qed

lemma diamond_eq:
  "diamond =
     \<lparr>top_of = \<lparr>hashes = [''AAAABBBB'' \<mapsto> 0, ''B'' \<mapsto> 1, ''C'' \<mapsto> 2, ''X'' \<mapsto> 3],
                names = {}, index = [''n'' \<mapsto> {3}, ''text'' \<mapsto> {3}],
                top_level = [0], top_children = [0], digest_prefix = 8\<rparr>,
      arts = [\<lparr>bdx = ''AAAABBBB'', digest = ''AAAABBBB'', parents = [Excavation],
               children = [1, 2], named = None, notes_of = {}, types_of = {},
               descriptions = [], comments = [], taken = False, layout = []\<rparr>,
              \<lparr>bdx = ''B'', digest = ''B'', parents = [Artifact 0],
               children = [3], named = None, notes_of = {}, types_of = {},
               descriptions = [], comments = [], taken = False, layout = []\<rparr>,
              \<lparr>bdx = ''C'', digest = ''C'', parents = [Artifact 0],
               children = [3], named = None, notes_of = {}, types_of = {},
               descriptions = [], comments = [], taken = False, layout = []\<rparr>,
              \<lparr>bdx = ''X'', digest = ''X'', parents = [Artifact 1, Artifact 2],
               children = [], named = None, notes_of = {''n''}, types_of = {''text''},
               descriptions = [], comments = [], taken = False, layout = []\<rparr>]\<rparr>"
  by (simp add: diamond_def store8_eq create_defs add_type_def note_defs
      numeral_2_eq_2 numeral_3_eq_3)

lemma dag_diamond: "dag (\<lambda>i. 3 - i) diamond"
  by (auto simp: dag_def diamond_eq nth_Cons' less_Suc_eq numeral_eq_Suc split: if_splits)

lemma finite_tags_diamond: "finite_tags diamond"
  by (auto simp: finite_tags_def diamond_eq nth_Cons')

text \<open>
  C7, as the source has it. Let the store be a DAG (a height \<open>h\<close> falls along every
  \<^verbatim>\<open>children\<close> edge) whose sets of notes and types are finite. For every artifact \<open>a\<close>,
  \<^verbatim>\<open>iter_notes(recursive=True)\<close> and \<^verbatim>\<open>iter_types(recursive=True)\<close> terminate: any fuel
  above the height of \<open>a\<close> gives a result, and no assertion fails. What \<^verbatim>\<open>iter_notes\<close>
  yields is exactly the notes of \<open>a\<close> and of its descendants, the pair \<open>(d, n)\<close> as many
  times as there are paths from \<open>a\<close> to \<open>d\<close>; what \<^verbatim>\<open>iter_types\<close> yields is exactly the
  types of \<open>a\<close> and of its descendants. There is no visited set.
\<close>

theorem recursive_iteration_on_dag:
  assumes "dag h s" and "finite_tags s" and "a < length (arts s)" and "h a < k"
  shows "\<exists>m t. iter_notes k True a s = Some (Inr m) \<and>
     set_mset m = {(d, n). d \<in> descendants s a \<and> n \<in> notes_of (arts s ! d)} \<and>
     (\<forall>d n. count m (d, n) = (if n \<in> notes_of (arts s ! d) then paths k s a d else 0)) \<and>
     iter_types k True a s = Some (Inr t) \<and>
     set_mset t = (\<Union>d \<in> descendants s a. types_of (arts s ! d))"
  using iter_notes_dag[OF assms] iter_types_dag[OF assms] by blast

theorem recursive_iteration_on_dag_witness:
  "\<exists>m t. iter_notes 4 True 0 diamond = Some (Inr m) \<and>
         set_mset m = {(d, n). d \<in> descendants diamond 0 \<and> n \<in> notes_of (arts diamond ! d)} \<and>
         count m (3, ''n'') = paths 4 diamond 0 3 \<and>
         iter_types 4 True 0 diamond = Some (Inr t)"
proof -
  have 1: "0 < length (arts diamond)" by (simp add: diamond_eq)
  have 2: "3 - 0 < (4::nat)" by simp
  have 3: "''n'' \<in> notes_of (arts diamond ! 3)" by (simp add: diamond_eq)
  show ?thesis
    using recursive_iteration_on_dag [of "\<lambda>i. 3 - i" diamond 0 4, OF dag_diamond finite_tags_diamond 1 2] 3
    by fastforce
qed

text \<open>
  C7 as claimed, at most once, fails on the store with a shared child: the note and the
  type of the shared artifact 3 are yielded twice, once through 1 and once through 2.
\<close>

theorem recursive_iteration_counterexample:
  "\<exists>m t. iter_notes 3 True 0 diamond = Some (Inr m) \<and> count m (3, ''n'') = 2 \<and>
         iter_types 3 True 0 diamond = Some (Inr t) \<and> count t ''text'' = 2"
  by (simp add: diamond_eq numeral_3_eq_3)

subsection \<open>Coverage reconciliation\<close>





lemma insert_entry_ok:
  "\<forall>y \<in> set ys. \<exists>r. lt_entry s x y = Inr r \<Longrightarrow>
     \<exists>zs. insert_entry s x ys = Inr zs \<and> set zs = insert x (set ys)"
proof (induction ys)
  case Nil
  show ?case by simp
next
  case (Cons y ys)
  obtain r where r: "lt_entry s x y = Inr r" using Cons.prems by auto
  obtain zs where zs: "insert_entry s x ys = Inr zs" "set zs = insert x (set ys)"
    using Cons.IH Cons.prems by auto
  show ?case using r zs by (cases r) auto
qed

lemma sort_entries_ok:
  "\<forall>x \<in> set xs \<union> set acc. \<forall>y \<in> set xs \<union> set acc. \<exists>r. lt_entry s x y = Inr r \<Longrightarrow>
     \<exists>zs. sort_entries s xs acc = Inr zs \<and> set zs = set xs \<union> set acc"
proof (induction xs arbitrary: acc)
  case Nil
  show ?case by simp
next
  case (Cons x xs)
  have "\<forall>y \<in> set acc. \<exists>r. lt_entry s x y = Inr r" using Cons.prems by simp
  then obtain acc' where a: "insert_entry s x acc = Inr acc'" "set acc' = insert x (set acc)"
    using insert_entry_ok by blast
  have "set xs \<union> set acc' = set (x # xs) \<union> set acc" using a(2) by auto
  then have "\<forall>x \<in> set xs \<union> set acc'. \<forall>y \<in> set xs \<union> set acc'. \<exists>r. lt_entry s x y = Inr r"
    using Cons.prems by simp
  from Cons.IH[OF this] obtain zs where
    "sort_entries s xs acc' = Inr zs" "set zs = set xs \<union> set acc'" by blast
  then show ?case using a by auto
qed

lemma sorted_py_ok:
  assumes "\<forall>x \<in> set es. \<forall>y \<in> set es. \<exists>r. lt_entry s x y = Inr r"
  shows "\<exists>zs. sorted_py s es = Inr zs \<and> set zs = set es"
  using sort_entries_ok[of es "[]" s] assms by (simp add: sorted_py_def)









lemma comparable_sort_returns:
  assumes "\<forall>x \<in> set es. \<forall>y \<in> set es. \<exists>r. lt_entry s x y = Inr r"
  shows "sort_returns s es"
  using sorted_py_ok[OF assms] by (auto simp: sort_returns_def)






















subsection \<open>Comments and the index\<close>

lemma indexed_add_to_index:
  "indexed (add_to_index key a s) k b \<longleftrightarrow> (k = key \<and> b = a) \<or> indexed s k b"
  by (auto simp: indexed_def add_to_index_def upd_simps split: option.splits)

lemma indexed_upd_art: "indexed (upd_art a f s) k b = indexed s k b"
  by (simp add: indexed_def upd_simps)

lemma indexed_upd_names:
  "indexed (upd_top (\<lambda>t. t\<lparr>names := g t\<rparr>) s) k b = indexed s k b"
  by (simp add: indexed_def upd_simps)

lemma arts_add_to_index: "arts (add_to_index key a s) = arts s"
  by (simp add: add_to_index_def upd_simps)

lemmas indexed_simps = indexed_add_to_index indexed_upd_art indexed_upd_names arts_add_to_index
  arts_upd_art arts_upd_top

lemma ic_add_note: "index_complete s \<Longrightarrow> index_complete (add_note n a s)"
  unfolding index_complete_def add_note_def
  by (auto simp: indexed_simps nth_upd)

lemma ic_add_type: "index_complete s \<Longrightarrow> index_complete (add_type t a s)"
  unfolding index_complete_def add_type_def
  by (auto simp: indexed_simps nth_upd)

lemma ic_add_description: "index_complete s \<Longrightarrow> index_complete (add_description d a s)"
  unfolding index_complete_def add_description_def
  by (auto simp: indexed_simps nth_upd)

lemma ic_set_name: "index_complete s \<Longrightarrow> index_complete (snd (set_name n fb a s))"
  unfolding index_complete_def set_name_def add_note_def
  by (auto simp: indexed_simps nth_upd)

lemma ic_mutate: "index_complete s \<Longrightarrow> index_complete (mutate m s)"
  by (cases m) (simp_all add: ic_add_note ic_add_type ic_add_description ic_set_name)

lemma index_complete_store2: "index_complete store2"
  by (simp add: index_complete_def store2_eq nth_Cons')

text \<open>
  Index completeness is kept by every run of \<^verbatim>\<open>set_name\<close>, \<^verbatim>\<open>add_note\<close>,
  \<^verbatim>\<open>add_type\<close> and \<^verbatim>\<open>add_description\<close>, on any artifacts and in any order.
\<close>

theorem index_complete_preserved:
  "index_complete s \<Longrightarrow> index_complete (fold mutate ms s)"
  by (induction ms arbitrary: s) (simp_all add: ic_mutate)

theorem index_complete_preserved_witness:
  "index_complete (fold mutate
     [SetName ''alpha'' True 0, SetName ''alpha'' True 1, AddNote ''tape'' 1,
      AddType ''text'' 0, AddDescription ''a label'' 0] store2)"
  using index_complete_preserved [OF index_complete_store2] by blast

text \<open>
  C6, at a fresh artifact. After \<^verbatim>\<open>add_comment\<close> the artifact has the note
  \<^verbatim>\<open>"Has Comment"\<close>, and the index has no such key: \<^verbatim>\<open>add_comment\<close> adds to the set of
  notes itself and never calls \<^verbatim>\<open>add_to_index\<close>, as \<^verbatim>\<open>add_note\<close> does.
\<close>

theorem add_comment_note_not_indexed:
  "''Has Comment'' \<in> notes_of (arts (add_comment ''see the label'' 0 store8) ! 0) \<and>
   index (top_of (add_comment ''see the label'' 0 store8)) ''Has Comment'' = None"
  by (simp add: store8_eq add_comment_def upd_art_def)

text \<open>In the words of the invariant: complete before the call, not after it.\<close>

lemma add_comment_breaks_index_complete:
  "index_complete store8 \<and> \<not> index_complete (add_comment ''see the label'' 0 store8)"
  by (simp add: store8_eq add_comment_def upd_art_def index_complete_def indexed_def)

subsection \<open>Failure, invariants and names\<close>

text \<open>
  A \<^verbatim>\<open>create\<close> that raises leaves a well-formed store exactly as it was: every
  assertion and comparison of \<^verbatim>\<open>create\<close>, of the constructor and of \<^verbatim>\<open>add_parent\<close>
  comes before the first assignment.
\<close>

theorem create_error_leaves_store:
  assumes "wf H s" and "self < length (arts s)"
    and "fst (create H bits start stop records self s) = Inl e"
  shows "snd (create H bits start stop records self s) = s"
  using assms(1,2)
proof (cases rule: create_cases[where bits=bits and start=start and stop=stop and records=records])
  case (err e') then show ?thesis by simp
next
  case same then show ?thesis by simp
next
  case (new b) then show ?thesis using assms(3) by simp
next
  case (old b t) then show ?thesis using assms(3) by simp
qed

theorem create_error_leaves_store_witness:
  "snd (create (\<lambda>b. b) None (Some 6) (Some 9) None 0 store8) = store8"
proof -
  have 1: "0 < length (arts store8)" by (simp add: store8_eq)
  have 2: "fst (create (\<lambda>b. b) None (Some 6) (Some 9) None 0 store8) = Inl AssertionError"
    by (simp add: store8_eq create_def source_def slice_source_def len_def)
  show ?thesis by (rule create_error_leaves_store [OF wf_store8 1 2])
qed

text \<open>
  Every \<^verbatim>\<open>create\<close> keeps the store well-formed: no artifact is empty, the digest of an
  artifact is the hash of its bytes, \<^verbatim>\<open>top.hashes\<close> holds every artifact under its digest,
  and so two artifacts with the same digest are the same object.
\<close>

theorem store_invariants_preserved:
  assumes "wf H s" and "self < length (arts s)"
  shows "wf H (snd (create H bits start stop records self s)) \<and>
     (\<forall>i < length (arts (snd (create H bits start stop records self s))).
      \<forall>j < length (arts (snd (create H bits start stop records self s))).
        digest (arts (snd (create H bits start stop records self s)) ! i) =
        digest (arts (snd (create H bits start stop records self s)) ! j) \<longrightarrow> i = j)"
proof -
  let ?s' = "snd (create H bits start stop records self s)"
  have w: "wf H ?s'" by (rule wf_create[OF assms])
  have "\<And>i j. i < length (arts ?s') \<Longrightarrow> j < length (arts ?s') \<Longrightarrow>
      digest (arts ?s' ! i) = digest (arts ?s' ! j) \<Longrightarrow> i = j"
    using wf_arts[OF w] by (metis option.inject)
  then show ?thesis using w by blast
qed

theorem store_invariants_preserved_witness:
  "wf (\<lambda>b. b) (snd (create (\<lambda>b. b) (Some (Bytes ''XYZ'')) None None None 0 store8))"
proof -
  have 1: "0 < length (arts store8)" by (simp add: store8_eq)
  show ?thesis using store_invariants_preserved [OF wf_store8 1] by blast
qed

text \<open>
  \<^verbatim>\<open>set_name\<close> keeps the names unique, with or without fallback, failed or not.
\<close>

theorem names_stay_unique:
  assumes "names_unique s" and "self < length (arts s)"
  shows "names_unique (snd (set_name n fb self s))"
proof -
  have n: "names (top_of s) = {n. \<exists>a < length (arts s). named (arts s ! a) = Some n}"
    and u: "\<And>a b n. a < length (arts s) \<Longrightarrow> b < length (arts s) \<Longrightarrow>
        named (arts s ! a) = Some n \<Longrightarrow> named (arts s ! b) = Some n \<Longrightarrow> a = b"
    using assms(1) unfolding names_unique_def by blast+
  have "snd (set_name n fb self s) = s \<or>
      snd (set_name n fb self s) = add_to_index n self (add_note n self s) \<or>
      (named (arts s ! self) = None \<and> n \<notin> names (top_of s) \<and>
       snd (set_name n fb self s) = add_to_index n self
           (upd_art self (\<lambda>x. x\<lparr>named := Some n\<rparr>)
              (upd_top (\<lambda>t. t\<lparr>names := insert n (names t)\<rparr>) s)))"
    by (simp add: set_name_def)
  then show ?thesis
  proof (elim disjE conjE)
    assume "snd (set_name n fb self s) = s"
    then show ?thesis using assms(1) by simp
  next
    assume demoted: "snd (set_name n fb self s) = add_to_index n self (add_note n self s)"
    show ?thesis
      unfolding demoted names_unique_def
      using n u by (auto simp: note_defs)
  next
    assume claim: "named (arts s ! self) = None" "n \<notin> names (top_of s)"
        "snd (set_name n fb self s) = add_to_index n self
           (upd_art self (\<lambda>x. x\<lparr>named := Some n\<rparr>)
              (upd_top (\<lambda>t. t\<lparr>names := insert n (names t)\<rparr>) s))"
    have fresh: "\<And>a. a < length (arts s) \<Longrightarrow> named (arts s ! a) \<noteq> Some n"
      using claim(2) n by auto
    show ?thesis
      unfolding claim(3) names_unique_def
      using n u fresh assms(2) claim(1)
      by (auto simp: note_defs split: if_splits) (metis option.distinct(1))
  qed
qed

lemma names_unique_store2: "names_unique store2"
  by (simp add: names_unique_def store2_eq nth_Cons')

theorem names_stay_unique_witness:
  "names_unique (snd (set_name ''alpha'' True 1 (snd (set_name ''alpha'' True 0 store2))))"
proof -
  have 1: "0 < length (arts store2)" by (simp add: store2_eq)
  have 2: "1 < length (arts (snd (set_name ''alpha'' True 0 store2)))"
    by (simp add: store2_eq set_name_def note_defs)
  show ?thesis
    by (rule names_stay_unique [OF names_stay_unique [OF names_unique_store2 1] 2])
qed

lemma store8_split_layout:
  "layout (arts store8_split ! 0) = [(Some 0, Some 4, 1), (Some 4, Some 8, 2)] \<and>
   bdx (arts store8_split ! 1) = ''AAAA'' \<and> bdx (arts store8_split ! 2) = ''BBBB''"
  by (simp add: store8_split_def store8_eq create_defs)

text \<open>
  Scenario S1: the eight bytes split into \<open>[0,4)\<close> and \<open>[4,8)\<close>. The children hold
  \<^verbatim>\<open>b"AAAA"\<close> and \<^verbatim>\<open>b"BBBB"\<close>, and \<^verbatim>\<open>examined\<close> finds no gap: the store, and with it
  the layout of two entries, is as it was.
\<close>

theorem examined_full_layout_creates_nothing:
  "layout (arts store8_split ! 0) = [(Some 0, Some 4, 1), (Some 4, Some 8, 2)] \<and>
   bdx (arts store8_split ! 1) = ''AAAA'' \<and> bdx (arts store8_split ! 2) = ''BBBB'' \<and>
   examined (\<lambda>b. b) 0 store8_split = (Inr (), store8_split)"
  using store8_split_layout
  by (simp add: examined_def sorted_py_def gaps_def len_def store8_split_def store8_eq create_defs)

end
